theory Spec2Isabelle
  imports Main "HOL-Library.Word"
begin

section \<open>JavaScript strings\<close>

text \<open>
  A JavaScript string is a sequence of UTF-16 code units. The regular expression of
  \<open>handleCopyCode\<close> has no \<open>u\<close> flag, so it also works code unit by code unit.
\<close>

type_synonym jschar = "16 word"
type_synonym jsstring = "jschar list"

text \<open>An ASCII literal as a JavaScript string.\<close>

definition js :: "string \<Rightarrow> jsstring" where
  "js s = map of_char s"

text \<open>The character class \<open>\w\<close> of a regular expression: \<open>[A-Za-z0-9_]\<close>.\<close>

definition is_word_char :: "jschar \<Rightarrow> bool" where
  "is_word_char c \<longleftrightarrow>
     (0x41 \<le> c \<and> c \<le> 0x5A) \<or> (0x61 \<le> c \<and> c \<le> 0x7A) \<or> (0x30 \<le> c \<and> c \<le> 0x39) \<or> c = 0x5F"

text \<open>
  The code units that \<open>String.prototype.trim\<close> removes: the WhiteSpace and
  LineTerminator productions of ECMAScript.
\<close>

definition is_space :: "jschar \<Rightarrow> bool" where
  "is_space c \<longleftrightarrow>
     c \<in> set [0x0009, 0x000A, 0x000B, 0x000C, 0x000D, 0x0020, 0x00A0, 0x1680,
               0x2028, 0x2029, 0x202F, 0x205F, 0x3000, 0xFEFF]
     \<or> (0x2000 \<le> c \<and> c \<le> 0x200A)"

definition trim :: "jsstring \<Rightarrow> jsstring" where
  "trim s = rev (dropWhile is_space (rev (dropWhile is_space s)))"

text \<open>\<open>Array.prototype.join\<close> on an array of strings.\<close>

fun join :: "jsstring \<Rightarrow> jsstring list \<Rightarrow> jsstring" where
  "join sep [] = []"
| "join sep [x] = x"
| "join sep (x # y # ys) = x @ sep @ join sep (y # ys)"

section \<open>The pattern of handleCopyCode\<close>

text \<open>
  The pattern is \<^verbatim>\<open>/```(?:\w+)?\n([\s\S]*?)```/g\<close>: three backticks, an optional
  greedy run of word characters, a line feed, a lazy run of arbitrary code units
  (capture group 1), three backticks.
\<close>

definition backtick :: jschar where
  "backtick = 0x60"

definition fence :: jsstring where
  "fence = [backtick, backtick, backtick]"

definition newline :: jschar where
  "newline = 0x0A"

text \<open>
  \<^verbatim>\<open>([\s\S]*?)```\<close> on the input \<open>s\<close>: the lazy star first tries to stop, and takes one
  more code unit only when the closing backticks do not follow. The result is the
  capture and the input left after the closing backticks.
\<close>

fun lazy_body :: "jsstring \<Rightarrow> (jsstring \<times> jsstring) option" where
  "lazy_body s =
     (if take 3 s = fence then Some ([], drop 3 s)
      else (case s of
              [] \<Rightarrow> None
            | c # cs \<Rightarrow> (case lazy_body cs of
                          None \<Rightarrow> None
                        | Some (cap, r) \<Rightarrow> Some (c # cap, r))))"

text \<open>\<^verbatim>\<open>\n([\s\S]*?)```\<close>: what follows the language tag.\<close>

definition after_tag :: "jsstring \<Rightarrow> (jsstring \<times> jsstring) option" where
  "after_tag s =
     (case s of
        [] \<Rightarrow> None
      | c # cs \<Rightarrow> if c = newline then lazy_body cs else None)"

text \<open>
  The lengths that \<^verbatim>\<open>(?:\w+)?\<close> tries on the input \<open>s\<close>, in the order of the
  backtracking matcher: the greedy \<^verbatim>\<open>\w+\<close> takes the whole run of word characters and
  gives them back one by one down to a single one; then the \<^verbatim>\<open>?\<close> skips the group.
\<close>

definition tag_lengths :: "jsstring \<Rightarrow> nat list" where
  "tag_lengths s = rev [1 ..< Suc (length (takeWhile is_word_char s))] @ [0]"

text \<open>The first alternative that lets the rest of the pattern match.\<close>

fun first_alt :: "('a \<Rightarrow> 'b option) \<Rightarrow> 'a list \<Rightarrow> 'b option" where
  "first_alt f [] = None"
| "first_alt f (x # xs) = (case f x of Some r \<Rightarrow> Some r | None \<Rightarrow> first_alt f xs)"

text \<open>
  One attempt of the pattern at the beginning of \<open>s\<close>. The result is the matched text
  (\<open>m[0]\<close>), capture group 1 (\<open>m[1]\<close>) and the input left after the match.
\<close>

definition exec_at :: "jsstring \<Rightarrow> (jsstring \<times> jsstring \<times> jsstring) option" where
  "exec_at s =
     (if take 3 s = fence then
        first_alt
          (\<lambda>n. case after_tag (drop n (drop 3 s)) of
                 None \<Rightarrow> None
               | Some (cap, r) \<Rightarrow>
                   Some (fence @ take n (drop 3 s) @ [newline] @ cap @ fence, cap, r))
          (tag_lengths (drop 3 s))
      else None)"

record regex_match =
  index :: nat
  matched :: jsstring
  group1 :: jsstring

declare lazy_body.simps [simp del]

lemma lazy_body_length: "lazy_body s = Some (cap, r) \<Longrightarrow> length r < length s"
proof (induction s arbitrary: cap r)
  case Nil
  then show ?case by (simp add: lazy_body.simps [of "[]"] fence_def)
next
  case (Cons c cs)
  show ?case
  proof (cases "take 3 (c # cs) = fence")
    case True
    with Cons.prems show ?thesis by (auto simp: lazy_body.simps [of "c # cs"])
  next
    case False
    with Cons.prems obtain cap' where "lazy_body cs = Some (cap', r)"
      by (auto simp: lazy_body.simps [of "c # cs"] split: option.splits)
    from Cons.IH [OF this] show ?thesis by simp
  qed
qed

lemma after_tag_length: "after_tag s = Some (cap, r) \<Longrightarrow> length r < length s"
  by (cases s) (auto simp: after_tag_def split: if_splits dest: lazy_body_length)

lemma first_alt_Some:
  "first_alt f xs = Some r \<Longrightarrow> \<exists>x \<in> set xs. f x = Some r"
  by (induction xs) (auto split: option.splits)

lemma exec_at_length: "exec_at s = Some (m, cap, r) \<Longrightarrow> length r < length s"
proof -
  assume a: "exec_at s = Some (m, cap, r)"
  then obtain n where
    "(case after_tag (drop n (drop 3 s)) of
        None \<Rightarrow> None
      | Some (cap, r) \<Rightarrow>
          Some (fence @ take n (drop 3 s) @ [newline] @ cap @ fence, cap, r)) = Some (m, cap, r)"
    unfolding exec_at_def by (auto split: if_splits dest!: first_alt_Some)
  then have "after_tag (drop n (drop 3 s)) = Some (cap, r)"
    by (auto split: option.splits)
  from after_tag_length [OF this] show ?thesis by simp
qed

text \<open>
  \<open>String.prototype.matchAll\<close> with a global pattern: the scan looks for the leftmost
  match from \<open>lastIndex\<close> on, and after a match goes on from the end of that match
  (a match of this pattern is never empty). The input \<open>s\<close> is the text from
  \<open>lastIndex\<close> on and \<open>i\<close> is \<open>lastIndex\<close>.
\<close>

function matchAll_from :: "nat \<Rightarrow> jsstring \<Rightarrow> regex_match list" where
  "matchAll_from i s =
     (if s = [] then []
      else (case exec_at s of
              Some (m, cap, r) \<Rightarrow>
                \<lparr>index = i, matched = m, group1 = cap\<rparr> # matchAll_from (i + length m) r
            | None \<Rightarrow> matchAll_from (Suc i) (tl s)))"
  by pat_completeness auto
termination
  by (relation "measure (\<lambda>(i, s). length s)") (auto dest: exec_at_length)

definition matchAll :: "jsstring \<Rightarrow> regex_match list" where
  "matchAll s = matchAll_from 0 s"

declare matchAll_from.simps [simp del]

section \<open>Fences in a text\<close>

text \<open>\<open>has_fence s\<close>: three backticks in a row occur somewhere in \<open>s\<close>.\<close>

fun has_fence :: "jsstring \<Rightarrow> bool" where
  "has_fence [] = False"
| "has_fence (c # cs) = (take 3 (c # cs) = fence \<or> has_fence cs)"

text \<open>The text after the first three backticks in a row, if there are any.\<close>

fun after_fence :: "jsstring \<Rightarrow> jsstring option" where
  "after_fence [] = None"
| "after_fence (c # cs) = (if take 3 (c # cs) = fence then Some (drop 3 (c # cs)) else after_fence cs)"

text \<open>
  The specification's delimiter convention for a fenced code segment: three
  backticks, an optional language tag, content, three backticks. This predicate
  follows those words and not the pattern of the code: \<open>s\<close> holds a fenced segment when
  three backticks occur in it and three backticks occur again after them.
\<close>

definition spec_has_fenced_segment :: "jsstring \<Rightarrow> bool" where
  "spec_has_fenced_segment s = (case after_fence s of None \<Rightarrow> False | Some r \<Rightarrow> has_fence r)"

text \<open>
  A fenced code block in the convention of the pattern: at the beginning of \<open>s\<close>
  three backticks, a run of word characters and a line feed, and three backticks
  again somewhere after the line feed.
\<close>

definition opens_block :: "jsstring \<Rightarrow> bool" where
  "opens_block s \<longleftrightarrow>
     take 3 s = fence \<and>
     (case dropWhile is_word_char (drop 3 s) of
        [] \<Rightarrow> False
      | c # cs \<Rightarrow> c = newline \<and> has_fence cs)"

text \<open>Such a block begins somewhere in the text.\<close>

fun has_code_block :: "jsstring \<Rightarrow> bool" where
  "has_code_block [] = False"
| "has_code_block (c # cs) = (opens_block (c # cs) \<or> has_code_block cs)"

section \<open>JavaScript values\<close>

text \<open>
  The values that the response body of the gateway can be once axios has parsed it, and
  so the values that the component can come to hold: \<open>undefined\<close>, \<open>null\<close>, a boolean,
  a number, a string, an array or an object (its own properties in order). The handlers
  only observe whether a number is zero, so a number is represented by an integer.
\<close>

datatype jsval =
    JUndefined
  | JNull
  | JBool bool
  | JNum int
  | JStr jsstring
  | JArr "jsval list"
  | JObj "(jsstring \<times> jsval) list"

datatype exn = TypeError | RequestFailed

text \<open>\<open>ToBoolean\<close>, as \<open>!v\<close> and \<open>v || w\<close> use it.\<close>

fun truthy :: "jsval \<Rightarrow> bool" where
  "truthy JUndefined = False"
| "truthy JNull = False"
| "truthy (JBool b) = b"
| "truthy (JNum n) = (n \<noteq> 0)"
| "truthy (JStr s) = (s \<noteq> [])"
| "truthy (JArr xs) = True"
| "truthy (JObj kvs) = True"

text \<open>
  \<open>v.message\<close>: reading a property of \<open>undefined\<close> or \<open>null\<close> throws a TypeError; an
  object gives its property or \<open>undefined\<close>; the other values have no such property.
\<close>

fun get_message :: "jsval \<Rightarrow> exn + jsval" where
  "get_message JUndefined = Inl TypeError"
| "get_message JNull = Inl TypeError"
| "get_message (JObj kvs) =
     (case map_of kvs (js ''message'') of None \<Rightarrow> Inr JUndefined | Some v \<Rightarrow> Inr v)"
| "get_message v = Inr JUndefined"

text \<open>\<open>typeof v === "object"\<close>.\<close>

fun typeof_object :: "jsval \<Rightarrow> bool" where
  "typeof_object JNull = True"
| "typeof_object (JArr xs) = True"
| "typeof_object (JObj kvs) = True"
| "typeof_object v = False"

section \<open>The Home component\<close>

text \<open>
  The component holds three state variables: \<open>code\<close> (initially the empty string),
  \<open>review\<close> (initially the empty string) and \<open>loading\<close> (initially false).
\<close>

record home_state =
  code :: jsstring
  review :: jsval
  loading :: bool

definition initial_state :: home_state where
  "initial_state = \<lparr>code = [], review = JStr [], loading = False\<rparr>"

text \<open>
  What a handler does to the outside, in the order in which it does it. The calls of
  the three state setters are recorded too.
\<close>

datatype effect =
    PreventDefault
  | Alert jsstring
  | Post jsstring
  | ToastSuccess jsval
  | ToastError jsstring
  | ClipboardWrite jsval
  | SetLoading bool
  | SetReview jsval
  | SetCode jsstring

text \<open>How the promise of \<open>axios.post\<close> settles: with the response body, or rejected.\<close>

datatype post_outcome = Resolved jsval | Rejected

definition msg_write_code :: jsstring where
  "msg_write_code = js ''Please write some code to review.''"

definition msg_reviewed :: jsstring where
  "msg_reviewed = 0x2705 # js '' Code reviewed successfully!''"

definition msg_failed :: jsstring where
  "msg_failed = 0x274C # js '' Failed to review code''"

definition msg_nothing :: jsstring where
  "msg_nothing = [0x26A0, 0xFE0F] @ js '' Nothing to copy''"

definition msg_full_copied :: jsstring where
  "msg_full_copied = [0xD83D, 0xDCCB] @ js '' Full review copied!''"

definition msg_no_code :: jsstring where
  "msg_no_code = [0x26A0, 0xFE0F] @ js '' No code found in review!''"

definition msg_code_copied :: jsstring where
  "msg_code_copied = [0xD83D, 0xDCCB] @ js '' Code snippets copied!''"

text \<open>
  The \<open>try\<close> block of \<open>submitHandler\<close>. \<open>stringify d\<close> stands for
  \<open>JSON.stringify(d, null, 2)\<close>. The result is the exception that left the block, if
  any, the state and the effects so far.
\<close>

definition submit_try ::
  "(jsval \<Rightarrow> jsstring) \<Rightarrow> post_outcome \<Rightarrow> home_state \<Rightarrow> exn option \<times> home_state \<times> effect list" where
  "submit_try stringify out st =
     (let st1 = st\<lparr>loading := True\<rparr>;
          tr1 = [SetLoading True, Post (code st)]
      in case out of
           Rejected \<Rightarrow> (Some RequestFailed, st1, tr1)
         | Resolved d \<Rightarrow>
             (case get_message d of
                Inl e \<Rightarrow> (Some e, st1, tr1)
              | Inr m \<Rightarrow>
                  (let shown = (if truthy m then m else JStr msg_reviewed);
                       rv = (if typeof_object d then JStr (stringify d) else d)
                   in (None, st1\<lparr>review := rv, code := []\<rparr>,
                       tr1 @ [ToastSuccess shown, SetReview rv, SetCode []]))))"

text \<open>
  \<open>submitHandler\<close>: the guard on the trimmed code, then \<open>try\<close>, \<open>catch\<close> and \<open>finally\<close>.
\<close>

definition submitHandler ::
  "(jsval \<Rightarrow> jsstring) \<Rightarrow> post_outcome \<Rightarrow> home_state \<Rightarrow> home_state \<times> effect list" where
  "submitHandler stringify out st =
     (if trim (code st) = [] then (st, [PreventDefault, Alert msg_write_code])
      else
        (case submit_try stringify out st of
           (ex, st2, tr) \<Rightarrow>
             (let tr3 = (case ex of Some e \<Rightarrow> tr @ [ToastError msg_failed] | None \<Rightarrow> tr)
              in (st2\<lparr>loading := False\<rparr>, PreventDefault # tr3 @ [SetLoading False]))))"

text \<open>\<open>handleCopyAll\<close> and \<open>handleCopyCode\<close> read the state and do not change it.\<close>

definition handleCopyAll :: "home_state \<Rightarrow> effect list" where
  "handleCopyAll st =
     (if \<not> truthy (review st) then [ToastError msg_nothing]
      else [ClipboardWrite (review st), ToastSuccess (JStr msg_full_copied)])"

text \<open>
  Only a string has the method \<open>matchAll\<close>: on any other value that is not falsy the
  call throws a TypeError.
\<close>

definition codeBlocks :: "jsstring \<Rightarrow> jsstring list" where
  "codeBlocks s = map (\<lambda>m. trim (group1 m)) (matchAll s)"

definition handleCopyCode :: "home_state \<Rightarrow> exn + effect list" where
  "handleCopyCode st =
     (if \<not> truthy (review st) then Inr [ToastError msg_nothing]
      else
        (case review st of
           JStr s \<Rightarrow>
             (if length (codeBlocks s) = 0 then Inr [ToastError msg_no_code]
              else
                (let finalCode = join (js ''\<newline>\<newline>'') (codeBlocks s)
                 in Inr [ClipboardWrite (JStr finalCode),
                         ToastSuccess (JStr msg_code_copied)]))
         | _ \<Rightarrow> Inl TypeError))"

text \<open>The values that the calls of \<open>setLoading\<close> pass, in order.\<close>

fun loading_writes :: "effect list \<Rightarrow> bool list" where
  "loading_writes [] = []"
| "loading_writes (SetLoading b # es) = b # loading_writes es"
| "loading_writes (e # es) = loading_writes es"

fun is_post :: "effect \<Rightarrow> bool" where
  "is_post (Post c) = True"
| "is_post e = False"

fun is_set_loading :: "effect \<Rightarrow> bool" where
  "is_set_loading (SetLoading b) = True"
| "is_set_loading e = False"

fun is_clipboard_write :: "effect \<Rightarrow> bool" where
  "is_clipboard_write (ClipboardWrite v) = True"
| "is_clipboard_write e = False"

fun is_set_review :: "effect \<Rightarrow> bool" where
  "is_set_review (SetReview v) = True"
| "is_set_review e = False"

section \<open>The gateway service\<close>

text \<open>
  \<open>main\<close> of the service calls the provider's client three times: it asks for the
  model, sends the prompt (the only call that is awaited) and reads the text of the
  response with the synchronous \<open>text()\<close>. Each call can throw, and all three are
  inside the \<open>try\<close> block. The client is a parameter; \<open>'e\<close> is the type of what it
  throws, \<open>'m\<close> of a model and \<open>'r\<close> of a response. The system instruction is
  configuration text and a parameter too. The result of \<open>main\<close> is what its promise
  settles with, \<open>Inl\<close> for a rejection, and the calls and console output in order.
\<close>

record ('e, 'm, 'r) provider =
  getGenerativeModel :: "jsstring \<Rightarrow> jsstring \<Rightarrow> 'e + 'm"
  generateContent :: "'m \<Rightarrow> jsstring list \<Rightarrow> 'e + 'r"
  response_text :: "'r \<Rightarrow> 'e + jsstring"

datatype 'e service_event =
    CallGetModel jsstring jsstring
  | CallGenerate "jsstring list"
  | CallText
  | ConsoleError jsstring 'e

definition model_name :: jsstring where
  "model_name = js ''gemini-2.5-flash''"

definition msg_generating :: jsstring where
  "msg_generating = js ''Error generating content:''"

text \<open>The \<open>try\<close> block of \<open>main\<close>.\<close>

definition main_try ::
  "jsstring \<Rightarrow> ('e, 'm, 'r) provider \<Rightarrow> jsstring \<Rightarrow> ('e + jsstring) \<times> 'e service_event list" where
  "main_try sys ai prompt =
     (case getGenerativeModel ai model_name sys of
        Inl e \<Rightarrow> (Inl e, [CallGetModel model_name sys])
      | Inr model \<Rightarrow>
          (case generateContent ai model [prompt] of
             Inl e \<Rightarrow> (Inl e, [CallGetModel model_name sys, CallGenerate [prompt]])
           | Inr response \<Rightarrow>
               (case response_text ai response of
                  Inl e \<Rightarrow>
                    (Inl e, [CallGetModel model_name sys, CallGenerate [prompt], CallText])
                | Inr text \<Rightarrow>
                    (Inr text, [CallGetModel model_name sys, CallGenerate [prompt], CallText]))))"

text \<open>\<open>main\<close>: the \<open>catch\<close> clause logs the error and throws it again.\<close>

definition main ::
  "jsstring \<Rightarrow> ('e, 'm, 'r) provider \<Rightarrow> jsstring \<Rightarrow> ('e + jsstring) \<times> 'e service_event list" where
  "main sys ai prompt =
     (case main_try sys ai prompt of
        (Inl error, tr) \<Rightarrow> (Inl error, tr @ [ConsoleError msg_generating error])
      | (Inr text, tr) \<Rightarrow> (Inr text, tr))"

fun is_generate :: "'e service_event \<Rightarrow> bool" where
  "is_generate (CallGenerate ps) = True"
| "is_generate e = False"

text \<open>The errors that were written to the console, in order.\<close>

fun logged :: "'e service_event list \<Rightarrow> 'e list" where
  "logged [] = []"
| "logged (ConsoleError m e # es) = e # logged es"
| "logged (e # es) = logged es"

text \<open>Kinds of provider failure, for concrete runs.\<close>

datatype provider_error = NetworkError | AuthError | MalformedResponse

section \<open>Properties of the submit handler\<close>

lemma trim_empty_iff: "trim s = [] \<longleftrightarrow> list_all is_space s"
proof
  assume "trim s = []"
  then have all: "\<forall>x \<in> set (dropWhile is_space s). is_space x"
    by (simp add: trim_def dropWhile_eq_Nil_conv)
  have "dropWhile is_space s = []"
  proof (rule ccontr)
    assume ne: "dropWhile is_space s \<noteq> []"
    then have "\<not> is_space (hd (dropWhile is_space s))"
      by (rule hd_dropWhile)
    moreover from ne have "hd (dropWhile is_space s) \<in> set (dropWhile is_space s)"
      by simp
    ultimately show False using all by blast
  qed
  then show "list_all is_space s"
    by (simp add: dropWhile_eq_Nil_conv list_all_iff)
next
  assume "list_all is_space s"
  then have e: "dropWhile is_space s = []"
    by (simp add: dropWhile_eq_Nil_conv list_all_iff)
  show "trim s = []"
    unfolding trim_def e by simp
qed

lemma submit_try_cases:
  "submit_try sf out st =
     (case out of
        Rejected \<Rightarrow>
          (Some RequestFailed, st\<lparr>loading := True\<rparr>, [SetLoading True, Post (code st)])
      | Resolved d \<Rightarrow>
          (case get_message d of
             Inl e \<Rightarrow> (Some e, st\<lparr>loading := True\<rparr>, [SetLoading True, Post (code st)])
           | Inr m \<Rightarrow>
               (None,
                st\<lparr>loading := True,
                   review := (if typeof_object d then JStr (sf d) else d), code := []\<rparr>,
                [SetLoading True, Post (code st),
                 ToastSuccess (if truthy m then m else JStr msg_reviewed),
                 SetReview (if typeof_object d then JStr (sf d) else d), SetCode []])))"
  by (simp add: submit_try_def Let_def split: post_outcome.split sum.split)

text \<open>
  C3. When the code is not blank, a submit sets the loading flag exactly twice, first
  to true and then to false, sends exactly one request, between the two, and leaves
  the flag false, however the request settles: with any response body (also one on
  which the handler throws a TypeError) or rejected.
\<close>

theorem submit_loading_released:
  "\<not> list_all is_space (code st) \<Longrightarrow>
   loading (fst (submitHandler sf out st)) = False \<and>
   loading_writes (snd (submitHandler sf out st)) = [True, False] \<and>
   filter (\<lambda>e. is_post e \<or> is_set_loading e) (snd (submitHandler sf out st))
     = [SetLoading True, Post (code st), SetLoading False]"
  by (cases out)
     (auto simp: submitHandler_def submit_try_cases trim_empty_iff
           split: sum.split)

theorem submit_loading_released_witness:
  "\<not> list_all is_space (js ''x=1'') \<and>
   loading (fst (submitHandler (\<lambda>d. js ''{}'') (Resolved JNull)
                  \<lparr>code = js ''x=1'', review = JStr [], loading = False\<rparr>)) = False \<and>
   loading_writes (snd (submitHandler (\<lambda>d. js ''{}'') (Resolved JNull)
                  \<lparr>code = js ''x=1'', review = JStr [], loading = False\<rparr>)) = [True, False]"
proof -
  have h: "\<not> list_all is_space (code \<lparr>code = js ''x=1'', review = JStr [], loading = False\<rparr>)"
    by (simp add: js_def is_space_def)
  from submit_loading_released [OF h, of "\<lambda>d. js ''{}''" "Resolved JNull"] h
  show ?thesis by simp
qed

text \<open>
  C4. When the code is empty or holds only white space, a submit leaves the state as
  it is and only shows the alert: no request is sent, the loading flag is not set and
  the review is not set.
\<close>

theorem submit_blank_noop:
  "list_all is_space (code st) \<Longrightarrow>
   fst (submitHandler sf out st) = st \<and>
   snd (submitHandler sf out st) = [PreventDefault, Alert msg_write_code] \<and>
   filter is_post (snd (submitHandler sf out st)) = [] \<and>
   loading_writes (snd (submitHandler sf out st)) = [] \<and>
   filter is_set_review (snd (submitHandler sf out st)) = []"
  by (simp add: submitHandler_def trim_empty_iff)

theorem submit_blank_noop_witness:
  "list_all is_space (js '' \<newline>  '') \<and>
   fst (submitHandler (\<lambda>d. js ''{}'') (Resolved (JStr (js ''ok'')))
          \<lparr>code = js '' \<newline>  '', review = JStr (js ''old''), loading = False\<rparr>)
     = \<lparr>code = js '' \<newline>  '', review = JStr (js ''old''), loading = False\<rparr> \<and>
   filter is_post (snd (submitHandler (\<lambda>d. js ''{}'') (Resolved (JStr (js ''ok'')))
          \<lparr>code = js '' \<newline>  '', review = JStr (js ''old''), loading = False\<rparr>)) = []"
proof -
  have h: "list_all is_space
             (code \<lparr>code = js '' \<newline>  '', review = JStr (js ''old''), loading = False\<rparr>)"
    by (simp add: js_def is_space_def)
  from submit_blank_noop [OF h, of "\<lambda>d. js ''{}''" "Resolved (JStr (js ''ok''))"] h
  show ?thesis by simp
qed

text \<open>
  C7. When the code is not blank and the request is rejected, the handler shows the
  failure toast and no success toast, never sets the review, which stays what it was,
  and leaves the loading flag false.
\<close>

theorem submit_rejected_keeps_review:
  "\<not> list_all is_space (code st) \<Longrightarrow>
   ToastError msg_failed \<in> set (snd (submitHandler sf Rejected st)) \<and>
   (\<forall>v. ToastSuccess v \<notin> set (snd (submitHandler sf Rejected st))) \<and>
   filter is_set_review (snd (submitHandler sf Rejected st)) = [] \<and>
   review (fst (submitHandler sf Rejected st)) = review st \<and>
   loading (fst (submitHandler sf Rejected st)) = False"
  by (simp add: submitHandler_def submit_try_cases trim_empty_iff)

theorem submit_rejected_keeps_review_witness:
  "\<not> list_all is_space (js ''x=1'') \<and>
   review (fst (submitHandler (\<lambda>d. js ''{}'') Rejected
                 \<lparr>code = js ''x=1'', review = JStr (js ''old''), loading = False\<rparr>))
     = JStr (js ''old'') \<and>
   loading (fst (submitHandler (\<lambda>d. js ''{}'') Rejected
                 \<lparr>code = js ''x=1'', review = JStr (js ''old''), loading = False\<rparr>)) = False"
proof -
  have h: "\<not> list_all is_space
               (code \<lparr>code = js ''x=1'', review = JStr (js ''old''), loading = False\<rparr>)"
    by (simp add: js_def is_space_def)
  from submit_rejected_keeps_review [OF h, of "\<lambda>d. js ''{}''"] h
  show ?thesis by simp
qed

text \<open>
  C9. When the code is not blank: a submit whose request resolves with a body other
  than \<open>null\<close> or \<open>undefined\<close> stores the review and sets the code to the empty
  string; a submit that fails, because the request is rejected or because the body is
  \<open>null\<close> or \<open>undefined\<close> and reading its message throws, leaves the code as it was.
\<close>

theorem submit_code_cleared_only_on_success:
  "\<not> list_all is_space (code st) \<Longrightarrow>
   (d \<noteq> JNull \<and> d \<noteq> JUndefined \<longrightarrow>
      code (fst (submitHandler sf (Resolved d) st)) = [] \<and>
      review (fst (submitHandler sf (Resolved d) st))
        = (if typeof_object d then JStr (sf d) else d)) \<and>
   (d = JNull \<or> d = JUndefined \<longrightarrow>
      code (fst (submitHandler sf (Resolved d) st)) = code st) \<and>
   code (fst (submitHandler sf Rejected st)) = code st"
  by (cases d)
     (auto simp: submitHandler_def submit_try_cases trim_empty_iff split: option.split)

theorem submit_code_cleared_only_on_success_witness:
  "\<not> list_all is_space (js ''x=1'') \<and>
   code (fst (submitHandler (\<lambda>d. js ''{}'') (Resolved (JStr (js ''fine'')))
               \<lparr>code = js ''x=1'', review = JStr [], loading = False\<rparr>)) = [] \<and>
   review (fst (submitHandler (\<lambda>d. js ''{}'') (Resolved (JStr (js ''fine'')))
               \<lparr>code = js ''x=1'', review = JStr [], loading = False\<rparr>)) = JStr (js ''fine'') \<and>
   code (fst (submitHandler (\<lambda>d. js ''{}'') (Resolved JNull)
               \<lparr>code = js ''x=1'', review = JStr [], loading = False\<rparr>)) = js ''x=1'' \<and>
   code (fst (submitHandler (\<lambda>d. js ''{}'') Rejected
               \<lparr>code = js ''x=1'', review = JStr [], loading = False\<rparr>)) = js ''x=1''"
proof -
  have h: "\<not> list_all is_space (code \<lparr>code = js ''x=1'', review = JStr [], loading = False\<rparr>)"
    by (simp add: js_def is_space_def)
  from submit_code_cleared_only_on_success [OF h, of "JStr (js ''fine'')" "\<lambda>d. js ''{}''"]
       submit_code_cleared_only_on_success [OF h, of JNull "\<lambda>d. js ''{}''"] h
  show ?thesis by simp
qed

section \<open>Properties of the copy handlers\<close>

text \<open>
  C6. When the stored review is the empty string, \<open>handleCopyAll\<close> and
  \<open>handleCopyCode\<close> only show the toast "Nothing to copy" and write nothing to the
  clipboard. When the stored review is a string that is not empty, \<open>handleCopyAll\<close>
  writes that very string to the clipboard.
\<close>

theorem copy_nothing_or_all:
  "(review st = JStr [] \<longrightarrow>
      handleCopyAll st = [ToastError msg_nothing] \<and>
      handleCopyCode st = Inr [ToastError msg_nothing] \<and>
      filter is_clipboard_write (handleCopyAll st) = []) \<and>
   (review st = JStr s \<and> s \<noteq> [] \<longrightarrow>
      handleCopyAll st = [ClipboardWrite (JStr s), ToastSuccess (JStr msg_full_copied)])"
  by (simp add: handleCopyAll_def handleCopyCode_def)

theorem copy_nothing_or_all_witness:
  "handleCopyAll initial_state = [ToastError msg_nothing] \<and>
   handleCopyCode initial_state = Inr [ToastError msg_nothing] \<and>
   handleCopyAll \<lparr>code = [], review = JStr (js ''# Review''), loading = False\<rparr>
     = [ClipboardWrite (JStr (js ''# Review'')), ToastSuccess (JStr msg_full_copied)]"
proof -
  have a: "review initial_state = JStr []"
    by (simp add: initial_state_def)
  have b: "review \<lparr>code = [], review = JStr (js ''# Review''), loading = False\<rparr>
             = JStr (js ''# Review'') \<and> js ''# Review'' \<noteq> []"
    by (simp add: js_def)
  from copy_nothing_or_all [of initial_state "[]"] a
  have 1: "handleCopyAll initial_state = [ToastError msg_nothing] \<and>
           handleCopyCode initial_state = Inr [ToastError msg_nothing]"
    by blast
  from copy_nothing_or_all
         [of "\<lparr>code = [], review = JStr (js ''# Review''), loading = False\<rparr>" "js ''# Review''"] b
  have 2: "handleCopyAll \<lparr>code = [], review = JStr (js ''# Review''), loading = False\<rparr>
             = [ClipboardWrite (JStr (js ''# Review'')), ToastSuccess (JStr msg_full_copied)]"
    by blast
  from 1 2 show ?thesis by blast
qed

section \<open>Properties of the scan\<close>

lemma has_fence_append_fence: "has_fence (a @ fence @ b)"
  by (induction a) (auto simp: fence_def)

lemma has_fence_decomp: "has_fence s \<Longrightarrow> \<exists>a b. s = a @ fence @ b"
proof (induction s)
  case Nil
  then show ?case by simp
next
  case (Cons c cs)
  show ?case
  proof (cases "take 3 (c # cs) = fence")
    case True
    then have "c # cs = [] @ fence @ drop 3 (c # cs)"
      by (metis append_Nil append_take_drop_id)
    then show ?thesis by blast
  next
    case False
    with Cons.prems have "has_fence cs" by simp
    from Cons.IH [OF this] obtain a b where "cs = a @ fence @ b" by blast
    then have "c # cs = (c # a) @ fence @ b" by simp
    then show ?thesis by blast
  qed
qed

lemma has_fence_iff: "has_fence s \<longleftrightarrow> (\<exists>a b. s = a @ fence @ b)"
  using has_fence_decomp has_fence_append_fence by blast

lemma has_fence_appendI1: "has_fence a \<Longrightarrow> has_fence (a @ b)"
  by (metis has_fence_iff append.assoc)

lemma has_fence_appendI2: "has_fence b \<Longrightarrow> has_fence (a @ b)"
  by (metis has_fence_iff append.assoc)

lemma lazy_body_None: "lazy_body s = None \<longleftrightarrow> \<not> has_fence s"
proof (induction s)
  case Nil
  show ?case by (simp add: lazy_body.simps [of "[]"] fence_def)
next
  case (Cons c cs)
  then show ?case
    by (auto simp: lazy_body.simps [of "c # cs"] split: option.splits)
qed

lemma lazy_body_Some:
  "lazy_body s = Some (cap, r) \<Longrightarrow> s = cap @ fence @ r \<and> \<not> has_fence (cap @ [backtick, backtick])"
proof (induction s arbitrary: cap r)
  case Nil
  then show ?case by (simp add: lazy_body.simps [of "[]"] fence_def)
next
  case (Cons c cs)
  show ?case
  proof (cases "take 3 (c # cs) = fence")
    case True
    with Cons.prems have "cap = []" "r = drop 3 (c # cs)"
      by (auto simp: lazy_body.simps [of "c # cs"])
    with True show ?thesis
      by (metis append_Nil append_take_drop_id has_fence.simps fence_def take_eq_Nil list.distinct(1) take_Suc_Cons numeral_3_eq_3 list.inject)
  next
    case False
    with Cons.prems obtain cap' where l: "lazy_body cs = Some (cap', r)" and c: "cap = c # cap'"
      by (auto simp: lazy_body.simps [of "c # cs"] split: option.splits)
    from Cons.IH [OF l] have ih: "cs = cap' @ fence @ r" "\<not> has_fence (cap' @ [backtick, backtick])"
      by auto
    have "take 3 (c # cap' @ [backtick, backtick]) \<noteq> fence"
    proof
      assume e: "take 3 (c # cap' @ [backtick, backtick]) = fence"
      have "take 3 (c # cs) = take 3 (c # cap' @ [backtick, backtick])"
        unfolding ih(1) fence_def
        by (cases cap'; cases "tl cap'"; cases "tl (tl cap')") (auto)
      with e False show False by simp
    qed
    with ih c show ?thesis by simp
  qed
qed


lemma first_alt_None: "(\<forall>x \<in> set xs. f x = None) \<Longrightarrow> first_alt f xs = None"
  by (induction xs) auto

lemma first_alt_only:
  "a \<in> set xs \<Longrightarrow> (\<forall>x \<in> set xs. x \<noteq> a \<longrightarrow> f x = None) \<Longrightarrow> first_alt f xs = f a"
proof (induction xs)
  case Nil
  then show ?case by simp
next
  case (Cons x xs)
  show ?case
  proof (cases "f x")
    case (Some r)
    with Cons.prems show ?thesis by auto
  next
    case None
    show ?thesis
    proof (cases "a \<in> set xs")
      case True
      with Cons None show ?thesis by simp
    next
      case False
      with Cons.prems have xa: "x = a" and "\<forall>y \<in> set xs. f y = None" by auto
      then have "first_alt f xs = None" by (simp add: first_alt_None)
      with None xa show ?thesis by simp
    qed
  qed
qed

lemma newline_not_word: "\<not> is_word_char newline"
  by (simp add: is_word_char_def newline_def)

lemma backtick_not_word: "\<not> is_word_char backtick"
  by (simp add: is_word_char_def backtick_def)

lemma backtick_not_newline: "backtick \<noteq> newline"
  by (simp add: backtick_def newline_def)

lemma after_tag_word:
  assumes "n < length (takeWhile is_word_char u)"
  shows "after_tag (drop n u) = None"
proof -
  from assms have n: "n < length u"
    using length_takeWhile_le [of is_word_char u] by simp
  from assms have "is_word_char (takeWhile is_word_char u ! n)"
    using nth_mem set_takeWhileD by metis
  with assms have w: "is_word_char (u ! n)"
    by (simp add: takeWhile_nth)
  from n have "drop n u = u ! n # drop (Suc n) u"
    by (simp add: Cons_nth_drop_Suc)
  with w newline_not_word show ?thesis
    by (auto simp: after_tag_def)
qed

lemma tag_lengths_set:
  "set (tag_lengths u) = {n. n \<le> length (takeWhile is_word_char u)}"
  by (auto simp: tag_lengths_def)

lemma exec_at_det:
  "exec_at s =
     (if take 3 s = fence then
        (case after_tag (dropWhile is_word_char (drop 3 s)) of
           None \<Rightarrow> None
         | Some (cap, r) \<Rightarrow>
             Some (fence @ takeWhile is_word_char (drop 3 s) @ [newline] @ cap @ fence, cap, r))
      else None)"
proof (cases "take 3 s = fence")
  case False
  then show ?thesis by (simp add: exec_at_def)
next
  case True
  define u where "u = drop 3 s"
  define L where "L = length (takeWhile is_word_char u)"
  define f where "f = (\<lambda>n. case after_tag (drop n u) of
                 None \<Rightarrow> None
               | Some (cap, r) \<Rightarrow>
                   Some (fence @ take n u @ [newline] @ cap @ fence, cap, r))"
  have "L \<in> set (tag_lengths u)"
    by (simp add: tag_lengths_set L_def)
  moreover have "\<forall>n \<in> set (tag_lengths u). n \<noteq> L \<longrightarrow> f n = None"
    by (auto simp: tag_lengths_set L_def f_def after_tag_word)
  ultimately have fa: "first_alt f (tag_lengths u) = f L"
    by (rule first_alt_only)
  have d: "drop L u = dropWhile is_word_char u"
    unfolding L_def by (rule dropWhile_eq_drop [symmetric])
  have tk: "take L u = takeWhile is_word_char u"
    unfolding L_def by (rule takeWhile_eq_take [symmetric])
  have "exec_at s = first_alt f (tag_lengths u)"
    using True unfolding exec_at_def f_def u_def by simp
  also note fa
  also have "f L = (case after_tag (dropWhile is_word_char u) of
           None \<Rightarrow> None
         | Some (cap, r) \<Rightarrow>
             Some (fence @ takeWhile is_word_char u @ [newline] @ cap @ fence, cap, r))"
    unfolding f_def d tk ..
  finally show ?thesis
    using True unfolding u_def by simp
qed

lemma exec_at_Some:
  assumes "exec_at s = Some (m, cap, r)"
  shows "\<exists>tag. s = m @ r \<and> m = fence @ tag @ [newline] @ cap @ fence \<and>
           list_all is_word_char tag \<and> \<not> has_fence (cap @ [backtick, backtick])"
proof -
  define u where "u = drop 3 s"
  define tag where "tag = takeWhile is_word_char u"
  from assms have f: "take 3 s = fence"
    by (auto simp: exec_at_det split: if_splits)
  with assms have a: "after_tag (dropWhile is_word_char u) = Some (cap, r)"
    and m: "m = fence @ tag @ [newline] @ cap @ fence"
    by (auto simp: exec_at_det u_def tag_def split: option.splits)
  from a obtain cs where d: "dropWhile is_word_char u = newline # cs" and l: "lazy_body cs = Some (cap, r)"
    by (auto simp: after_tag_def split: list.splits if_splits)
  from lazy_body_Some [OF l] have cs: "cs = cap @ fence @ r"
    and nf: "\<not> has_fence (cap @ [backtick, backtick])" by auto
  have "s = take 3 s @ u" by (simp add: u_def)
  also have "u = tag @ dropWhile is_word_char u" by (simp add: tag_def)
  finally have "s = m @ r" using f d cs m by simp
  moreover have "list_all is_word_char tag"
    by (auto simp: tag_def list_all_iff dest: set_takeWhileD)
  ultimately show ?thesis using m nf by blast
qed

lemma matchAll_from_sound:
  "x \<in> set (matchAll_from i s) \<Longrightarrow>
   \<exists>a tag b. s = a @ matched x @ b \<and> index x = i + length a \<and>
     matched x = fence @ tag @ [newline] @ group1 x @ fence \<and>
     list_all is_word_char tag \<and> \<not> has_fence (group1 x @ [backtick, backtick])"
proof (induction i s rule: matchAll_from.induct)
  case (1 i s)
  show ?case
  proof (cases "s = []")
    case True
    with "1.prems" show ?thesis by (simp add: matchAll_from.simps [of i "[]"])
  next
    case ne: False
    show ?thesis
    proof (cases "exec_at s")
      case None
      with ne "1.prems" have x: "x \<in> set (matchAll_from (Suc i) (tl s))"
        by (simp add: matchAll_from.simps [of i s])
      from "1.IH"(1) [OF ne None x] obtain a tag b where
        h: "tl s = a @ matched x @ b" "index x = Suc i + length a"
           "matched x = fence @ tag @ [newline] @ group1 x @ fence"
           "list_all is_word_char tag" "\<not> has_fence (group1 x @ [backtick, backtick])"
        by blast
      from ne h(1) have "s = (hd s # a) @ matched x @ b"
        by (metis append_Cons list.collapse)
      moreover from h(2) have "index x = i + length (hd s # a)" by simp
      ultimately show ?thesis using h(3-5) by blast
    next
      case (Some t)
      obtain m cap r where t: "t = (m, cap, r)" by (cases t) auto
      from exec_at_Some [OF Some [unfolded t]] obtain tag where
        e: "s = m @ r" "m = fence @ tag @ [newline] @ cap @ fence"
           "list_all is_word_char tag" "\<not> has_fence (cap @ [backtick, backtick])"
        by blast
      from ne Some t "1.prems" have
        "x = \<lparr>index = i, matched = m, group1 = cap\<rparr> \<or> x \<in> set (matchAll_from (i + length m) r)"
        by (simp add: matchAll_from.simps [of i s])
      then show ?thesis
      proof
        assume "x = \<lparr>index = i, matched = m, group1 = cap\<rparr>"
        with e have "s = [] @ matched x @ r" "index x = i + length ([]::jsstring)"
          "matched x = fence @ tag @ [newline] @ group1 x @ fence"
          "\<not> has_fence (group1 x @ [backtick, backtick])"
          by simp_all
        with e(3) show ?thesis by blast
      next
        assume x: "x \<in> set (matchAll_from (i + length m) r)"
        from "1.IH"(2) [OF ne Some t [symmetric] refl x] obtain a tag' b where
          h: "r = a @ matched x @ b" "index x = i + length m + length a"
           "matched x = fence @ tag' @ [newline] @ group1 x @ fence"
           "list_all is_word_char tag'" "\<not> has_fence (group1 x @ [backtick, backtick])"
          by blast
        from e(1) h(1) have "s = (m @ a) @ matched x @ b" by simp
        moreover from h(2) have "index x = i + length (m @ a)" by simp
        ultimately show ?thesis using h(3-5) by blast
      qed
    qed
  qed
qed


lemma matchAll_from_lower: "x \<in> set (matchAll_from i s) \<Longrightarrow> i \<le> index x"
  using matchAll_from_sound [of x i s] by auto

lemma matchAll_from_ordered:
  "sorted_wrt (\<lambda>x y. index x + length (matched x) \<le> index y) (matchAll_from i s)"
proof (induction i s rule: matchAll_from.induct)
  case (1 i s)
  show ?case
  proof (cases "s = []")
    case True
    then show ?thesis by (simp add: matchAll_from.simps [of i "[]"])
  next
    case ne: False
    show ?thesis
    proof (cases "exec_at s")
      case None
      with ne "1.IH"(1) show ?thesis
        by (simp add: matchAll_from.simps [of i s])
    next
      case (Some t)
      obtain m cap r where t: "t = (m, cap, r)" by (cases t) auto
      from "1.IH"(2) [OF ne Some t [symmetric] refl]
      have "sorted_wrt (\<lambda>x y. index x + length (matched x) \<le> index y)
              (matchAll_from (i + length m) r)" .
      moreover have "\<forall>y \<in> set (matchAll_from (i + length m) r). i + length m \<le> index y"
        by (simp add: matchAll_from_lower)
      ultimately show ?thesis
        using ne Some t by (simp add: matchAll_from.simps [of i s])
    qed
  qed
qed

lemma trim_decomp:
  "\<exists>a b. s = a @ trim s @ b \<and> list_all is_space a \<and> list_all is_space b"
proof -
  define d where "d = dropWhile is_space s"
  have "d = rev (takeWhile is_space (rev d) @ dropWhile is_space (rev d))"
    by (simp only: takeWhile_dropWhile_id rev_rev_ident)
  also have "\<dots> = rev (dropWhile is_space (rev d)) @ rev (takeWhile is_space (rev d))"
    by (simp only: rev_append)
  finally have "d = trim s @ rev (takeWhile is_space (rev d))"
    unfolding trim_def d_def .
  moreover have "s = takeWhile is_space s @ d"
    by (simp add: d_def)
  ultimately have "s = takeWhile is_space s @ trim s @ rev (takeWhile is_space (rev d))"
    by simp
  moreover have "list_all is_space (takeWhile is_space s)"
    by (auto simp: list_all_iff dest: set_takeWhileD)
  moreover have "list_all is_space (rev (takeWhile is_space (rev d)))"
    by (auto simp: list_all_iff dest: set_takeWhileD)
  ultimately show ?thesis by blast
qed

lemma trim_ends:
  assumes "trim s \<noteq> []"
  shows "\<not> is_space (hd (trim s)) \<and> \<not> is_space (last (trim s))"
proof -
  define d where "d = dropWhile is_space s"
  define e where "e = dropWhile is_space (rev d)"
  have t: "trim s = rev e" by (simp add: trim_def d_def e_def)
  with assms have ene: "e \<noteq> []" by simp
  then have dne: "d \<noteq> []" by (auto simp: e_def)
  from ene have "\<not> is_space (hd e)" unfolding e_def by (rule hd_dropWhile)
  then have l: "\<not> is_space (last (trim s))" using t ene by (simp add: last_rev)
  from dne have hd: "\<not> is_space (hd d)" unfolding d_def by (rule hd_dropWhile)
  have "last e = last (rev d)"
    using ene unfolding e_def by (metis dropWhile_last dropWhile_eq_Nil_conv)
  then have "hd (trim s) = hd d"
    using t ene dne by (simp add: hd_rev last_rev)
  with hd l show ?thesis by simp
qed

lemma take3_into_fence:
  "take 3 (c # cap @ fence @ r) = take 3 (c # cap @ [backtick, backtick])"
  unfolding fence_def
  by (cases cap; cases "tl cap"; cases "tl (tl cap)") auto

lemma lazy_body_complete:
  "\<not> has_fence (cap @ [backtick, backtick]) \<Longrightarrow> lazy_body (cap @ fence @ r) = Some (cap, r)"
proof (induction cap)
  case Nil
  have "take 3 (fence @ r) = fence" "drop 3 (fence @ r) = r"
    by (simp_all add: fence_def)
  then show ?case
    by (simp add: lazy_body.simps [of "fence @ r"])
next
  case (Cons c cap)
  then have nf: "take 3 (c # cap @ [backtick, backtick]) \<noteq> fence"
    and rest: "\<not> has_fence (cap @ [backtick, backtick])"
    by simp_all
  have "take 3 (c # cap @ fence @ r) \<noteq> fence"
    using nf unfolding take3_into_fence .
  with Cons.IH [OF rest] show ?case
    by (simp add: lazy_body.simps [of "c # cap @ fence @ r"])
qed

lemma exec_at_block:
  assumes "list_all is_word_char tag" and "\<not> has_fence (cap @ [backtick, backtick])"
  shows "exec_at (fence @ tag @ newline # cap @ fence @ r)
           = Some (fence @ tag @ [newline] @ cap @ fence, cap, r)"
proof -
  have t: "take 3 (fence @ tag @ newline # cap @ fence @ r) = fence"
    and d: "drop 3 (fence @ tag @ newline # cap @ fence @ r) = tag @ newline # cap @ fence @ r"
    by (simp_all add: fence_def)
  from assms(1) have tw: "takeWhile is_word_char (tag @ newline # cap @ fence @ r) = tag"
    and dw: "dropWhile is_word_char (tag @ newline # cap @ fence @ r) = newline # cap @ fence @ r"
    by (simp_all add: list_all_iff newline_not_word)
  have "after_tag (newline # cap @ fence @ r) = Some (cap, r)"
    using lazy_body_complete [OF assms(2)] by (simp add: after_tag_def)
  then show ?thesis
    unfolding exec_at_det t d tw dw by simp
qed

lemma exec_at_no_fence_prefix:
  assumes "\<not> has_fence (c # cs)" and "rest = [] \<or> take 3 rest = fence"
  shows "exec_at ((c # cs) @ rest) = None"
proof (cases "take 3 ((c # cs) @ rest) = fence")
  case False
  then show ?thesis by (simp add: exec_at_def)
next
  case True
  from assms(1) have nf: "take 3 (c # cs) \<noteq> fence" by simp
  have "\<exists>u. drop 3 ((c # cs) @ rest) = backtick # u"
  proof (cases cs)
    case Nil
    with True assms(2) show ?thesis
      by (cases rest; cases "tl rest"; cases "tl (tl rest)") (auto simp: fence_def)
  next
    case (Cons d ds)
    show ?thesis
    proof (cases ds)
      case Nil
      with Cons True assms(2) show ?thesis
        by (cases rest; cases "tl rest"; cases "tl (tl rest)") (auto simp: fence_def)
    next
      case (Cons e es)
      with \<open>cs = d # ds\<close> True nf show ?thesis by simp
    qed
  qed
  then obtain u where "drop 3 ((c # cs) @ rest) = backtick # u" by blast
  then show ?thesis
    unfolding exec_at_det
    by (simp add: backtick_not_word backtick_not_newline after_tag_def)
qed

lemma matchAll_from_Nil: "matchAll_from i [] = []"
  by (simp add: matchAll_from.simps [of i "[]"])

lemma matchAll_from_skip:
  "\<not> has_fence pre \<Longrightarrow> rest = [] \<or> take 3 rest = fence \<Longrightarrow>
   matchAll_from i (pre @ rest) = matchAll_from (i + length pre) rest"
proof (induction pre arbitrary: i)
  case Nil
  show ?case by simp
next
  case (Cons c cs)
  from Cons.prems have e: "exec_at ((c # cs) @ rest) = None"
    by (rule exec_at_no_fence_prefix)
  from Cons.prems(1) have "\<not> has_fence cs" by simp
  from Cons.IH [OF this Cons.prems(2), of "Suc i"] e show ?case
    by (simp add: matchAll_from.simps [of i "c # cs @ rest"])
qed

lemma matchAll_from_block:
  assumes "list_all is_word_char tag" and "\<not> has_fence (cap @ [backtick, backtick])"
  shows "matchAll_from i (fence @ tag @ newline # cap @ fence @ r)
           = \<lparr>index = i, matched = fence @ tag @ [newline] @ cap @ fence, group1 = cap\<rparr>
             # matchAll_from (i + length (fence @ tag @ [newline] @ cap @ fence)) r"
proof -
  have "fence @ tag @ newline # cap @ fence @ r \<noteq> []" by (simp add: fence_def)
  with exec_at_block [OF assms, of r] show ?thesis
    by (simp add: matchAll_from.simps [of i "fence @ tag @ newline # cap @ fence @ r"])
qed

lemma after_fence_two:
  "has_fence x \<Longrightarrow> \<exists>r. after_fence (a @ fence @ x) = Some r \<and> has_fence r"
proof (induction a)
  case Nil
  then show ?case by (simp add: fence_def)
next
  case (Cons c a)
  show ?case
  proof (cases "take 3 (c # a @ fence @ x) = fence")
    case False
    with Cons show ?thesis by simp
  next
    case True
    have "drop 3 ((c # a @ fence) @ x)
            = drop 3 (c # a @ fence) @ drop (3 - length (c # a @ fence)) x"
      by (rule drop_append)
    moreover have "3 - length (c # a @ fence) = 0"
      by (simp add: fence_def)
    ultimately have "drop 3 (c # a @ fence @ x) = drop 3 (c # a @ fence) @ x"
      by simp
    then have "has_fence (drop 3 (c # a @ fence @ x))"
      using Cons.prems by (simp only: has_fence_appendI2)
    with True show ?thesis by simp
  qed
qed

lemma spec_has_fenced_segmentI:
  "s = a @ fence @ c @ fence @ b \<Longrightarrow> spec_has_fenced_segment s"
  using after_fence_two [of "c @ fence @ b" a] has_fence_append_fence [of c b]
  by (auto simp: spec_has_fenced_segment_def)

lemma opens_block_not_Nil: "opens_block u \<Longrightarrow> u \<noteq> []"
  by (auto simp: opens_block_def fence_def)

lemma has_code_block_appendI: "opens_block u \<Longrightarrow> has_code_block (a @ u)"
proof (induction a)
  case Nil
  then show ?case
    using opens_block_not_Nil [of u] by (cases u) auto
next
  case (Cons c a)
  then show ?case by simp
qed

lemma opens_blockI:
  assumes "list_all is_word_char tag"
  shows "opens_block (fence @ tag @ newline # cap @ fence @ b)"
proof -
  have t: "take 3 (fence @ tag @ newline # cap @ fence @ b) = fence"
    and d: "drop 3 (fence @ tag @ newline # cap @ fence @ b) = tag @ newline # cap @ fence @ b"
    by (simp_all add: fence_def)
  from assms have dw: "dropWhile is_word_char (tag @ newline # cap @ fence @ b)
                         = newline # cap @ fence @ b"
    by (simp add: list_all_iff newline_not_word)
  show ?thesis
    unfolding opens_block_def t d dw by (simp add: has_fence_append_fence)
qed

lemma matchAll_has_code_block:
  assumes "x \<in> set (matchAll s)"
  shows "has_code_block s"
proof -
  from assms matchAll_from_sound [of x 0 s] obtain a tag b where
    h: "s = a @ matched x @ b" "matched x = fence @ tag @ [newline] @ group1 x @ fence"
       "list_all is_word_char tag"
    by (auto simp: matchAll_def)
  from h(1,2) have "s = a @ (fence @ tag @ newline # group1 x @ fence @ b)" by simp
  moreover from h(3) have "has_code_block (a @ (fence @ tag @ newline # group1 x @ fence @ b))"
    by (intro has_code_block_appendI opens_blockI)
  ultimately show ?thesis by simp
qed

lemma opens_block_segment:
  assumes "opens_block u"
  shows "\<exists>c b. u = fence @ c @ fence @ b"
proof -
  define d where "d = drop 3 u"
  from assms have t: "take 3 u = fence" by (simp add: opens_block_def)
  from assms obtain cs where dw: "dropWhile is_word_char d = newline # cs" and f: "has_fence cs"
    by (auto simp: opens_block_def d_def split: list.splits)
  from f obtain p q where cs: "cs = p @ fence @ q"
    using has_fence_decomp by blast
  have "u = take 3 u @ d" by (simp add: d_def)
  also have "d = takeWhile is_word_char d @ dropWhile is_word_char d" by simp
  finally have "u = fence @ (takeWhile is_word_char d @ newline # p) @ fence @ q"
    using t dw cs by simp
  then show ?thesis by blast
qed

lemma has_code_block_decomp:
  "has_code_block s \<Longrightarrow> \<exists>a c b. s = a @ fence @ c @ fence @ b"
proof (induction s)
  case Nil
  then show ?case by simp
next
  case (Cons x xs)
  show ?case
  proof (cases "opens_block (x # xs)")
    case True
    from opens_block_segment [OF this] obtain c b where "x # xs = [] @ fence @ c @ fence @ b"
      by auto
    then show ?thesis by blast
  next
    case False
    with Cons.prems have "has_code_block xs" by simp
    from Cons.IH [OF this] obtain a c b where "xs = a @ fence @ c @ fence @ b"
      by blast
    then have "x # xs = (x # a) @ fence @ c @ fence @ b" by simp
    then show ?thesis by blast
  qed
qed

lemma has_code_block_segment: "has_code_block s \<Longrightarrow> spec_has_fenced_segment s"
  using has_code_block_decomp [of s] spec_has_fenced_segmentI by blast

lemma no_block_no_matches: "\<not> has_code_block s \<Longrightarrow> codeBlocks s = []"
  using matchAll_has_code_block [of _ s]
  by (cases "matchAll s") (auto simp: codeBlocks_def)

text \<open>
  C5. A text that holds no fenced segment in the specification's convention holds no
  fenced code block in the convention of the pattern either. When the stored review
  is a text that is not empty and holds no fenced code block, \<open>handleCopyCode\<close> only
  shows the toast "No code found in review!": its effects hold no write to the
  clipboard.
\<close>

theorem copy_code_none_found:
  "(\<not> spec_has_fenced_segment s \<longrightarrow> \<not> has_code_block s) \<and>
   (s \<noteq> [] \<and> \<not> has_code_block s \<and> review st = JStr s \<longrightarrow>
      handleCopyCode st = Inr [ToastError msg_no_code])"
  using has_code_block_segment [of s]
  by (auto simp: handleCopyCode_def no_block_no_matches)

theorem copy_code_none_found_witness:
  "\<not> spec_has_fenced_segment (js ''Looks fine: `x` is ok.'') \<and>
   handleCopyCode \<lparr>code = [], review = JStr (js ''Looks fine: `x` is ok.''), loading = False\<rparr>
     = Inr [ToastError msg_no_code] \<and>
   spec_has_fenced_segment (js ''Use ```x``` here'') \<and> \<not> has_code_block (js ''Use ```x``` here'') \<and>
   handleCopyCode \<lparr>code = [], review = JStr (js ''Use ```x``` here''), loading = False\<rparr>
     = Inr [ToastError msg_no_code]"
proof -
  let ?s = "js ''Looks fine: `x` is ok.''"
  let ?t = "js ''Use ```x``` here''"
  have a: "?s \<noteq> []" "?t \<noteq> []"
    by (simp_all add: js_def)
  have b: "\<not> spec_has_fenced_segment ?s"
    by code_simp
  have c: "spec_has_fenced_segment ?t" "\<not> has_code_block ?t"
    by code_simp+
  from copy_code_none_found [of ?s "\<lparr>code = [], review = JStr ?s, loading = False\<rparr>"] a(1) b
  have 1: "handleCopyCode \<lparr>code = [], review = JStr ?s, loading = False\<rparr>
             = Inr [ToastError msg_no_code]"
    by simp
  from copy_code_none_found [of ?t "\<lparr>code = [], review = JStr ?t, loading = False\<rparr>"] a(2) c(2)
  have 2: "handleCopyCode \<lparr>code = [], review = JStr ?t, loading = False\<rparr>
             = Inr [ToastError msg_no_code]"
    by simp
  from b c 1 2 show ?thesis by blast
qed

lemma fence_position:
  "pre @ fence @ R = X @ fence @ b \<Longrightarrow> \<not> has_fence (backtick # backtick # R) \<Longrightarrow>
   length X \<le> length pre"
proof (induction X arbitrary: pre)
  case Nil
  show ?case by simp
next
  case (Cons x X)
  show ?case
  proof (cases pre)
    case Nil
    with Cons.prems(1) have "backtick # backtick # R = X @ fence @ b"
      by (simp add: fence_def)
    then have "has_fence (backtick # backtick # R)"
      by (simp only: has_fence_append_fence)
    with Cons.prems(2) show ?thesis by simp
  next
    case (Cons p pre')
    with Cons.prems(1) have "pre' @ fence @ R = X @ fence @ b" by simp
    from Cons.IH [OF this Cons.prems(2)] Cons show ?thesis by simp
  qed
qed

lemma no_fence_after_tag:
  "list_all is_word_char tag \<Longrightarrow> \<not> has_fence body \<Longrightarrow>
   \<not> has_fence (backtick # backtick # tag @ newline # body)"
proof (induction tag)
  case Nil
  then show ?case
    using backtick_not_newline by (auto simp: fence_def)
next
  case (Cons t tag)
  then have "t \<noteq> backtick" using backtick_not_word by auto
  with Cons show ?case
    by (auto simp: fence_def)
qed

lemma unterminated_bound:
  assumes "list_all is_word_char tag" and "\<not> has_fence body"
    and "x \<in> set (matchAll (pre @ fence @ tag @ newline # body))"
  shows "index x + length (matched x) \<le> length pre + 3"
proof -
  from assms(3) matchAll_from_sound [of x 0 "pre @ fence @ tag @ newline # body"]
  obtain a tg b where
    s: "pre @ fence @ tag @ newline # body = a @ matched x @ b" and i: "index x = length a"
    and m: "matched x = fence @ tg @ [newline] @ group1 x @ fence"
    by (auto simp: matchAll_def)
  from s m have "pre @ fence @ (tag @ newline # body)
                   = (a @ fence @ tg @ [newline] @ group1 x) @ fence @ b"
    by simp
  from fence_position [OF this no_fence_after_tag [OF assms(1,2)]]
  have "length (a @ fence @ tg @ [newline] @ group1 x) \<le> length pre" .
  with i m show ?thesis by (simp add: fence_def)
qed

lemma unterminated_none:
  assumes "list_all is_word_char tag" and "\<not> has_fence body" and "\<not> has_fence pre"
  shows "matchAll (pre @ fence @ tag @ newline # body) = []"
proof (rule ccontr)
  assume "matchAll (pre @ fence @ tag @ newline # body) \<noteq> []"
  then obtain x where x: "x \<in> set (matchAll (pre @ fence @ tag @ newline # body))"
    by (cases "matchAll (pre @ fence @ tag @ newline # body)") auto
  from x matchAll_from_sound [of x 0 "pre @ fence @ tag @ newline # body"]
  obtain a tg b where
    s: "pre @ fence @ tag @ newline # body = a @ matched x @ b"
    and m: "matched x = fence @ tg @ [newline] @ group1 x @ fence"
    by (auto simp: matchAll_def)
  define X where "X = a @ fence @ tg @ [newline] @ group1 x"
  from s m have e: "pre @ fence @ (tag @ newline # body) = X @ fence @ b"
    by (simp add: X_def)
  from fence_position [OF this no_fence_after_tag [OF assms(1,2)]]
  have le: "length X \<le> length pre" .
  from e have "take (length X) (pre @ fence @ (tag @ newline # body))
                 = take (length X) (X @ fence @ b)"
    by (simp only:)
  with le have "take (length X) pre = X" by simp
  then have "pre = X @ drop (length X) pre"
    by (metis append_take_drop_id)
  moreover have "has_fence (X @ drop (length X) pre)"
    unfolding X_def using has_fence_append_fence [of a] by (metis append.assoc)
  ultimately have "has_fence pre" by simp
  with assms(3) show False by simp
qed

lemma block_js:
  "js ''```js\<newline>foo()\<newline>```'' = fence @ js ''js'' @ newline # js ''foo()\<newline>'' @ fence"
  by (simp add: js_def fence_def backtick_def newline_def)

lemma block_py:
  "js ''```py\<newline>bar()\<newline>```'' = fence @ js ''py'' @ newline # js ''bar()\<newline>'' @ fence"
  by (simp add: js_def fence_def backtick_def newline_def)

lemma two_blocks_matches:
  assumes "\<not> has_fence pre" and "\<not> has_fence mid" and "\<not> has_fence post"
  shows "map group1 (matchAll (pre @ js ''```js\<newline>foo()\<newline>```'' @ mid
                        @ js ''```py\<newline>bar()\<newline>```'' @ post))
           = [js ''foo()\<newline>'', js ''bar()\<newline>'']"
proof -
  have w1: "list_all is_word_char (js ''js'')" and w2: "list_all is_word_char (js ''py'')"
    by (simp_all add: js_def is_word_char_def)
  have c1: "\<not> has_fence (js ''foo()\<newline>'' @ [backtick, backtick])"
    and c2: "\<not> has_fence (js ''bar()\<newline>'' @ [backtick, backtick])"
    by (simp_all add: js_def fence_def backtick_def)
  have f: "take 3 (fence @ t) = fence" for t
    by (simp add: fence_def)
  have "matchAll_from i (post @ []) = matchAll_from (i + length post) []" for i
    using assms(3) by (rule matchAll_from_skip) simp
  then have s3: "matchAll_from i post = []" for i
    by (simp add: matchAll_from_Nil)
  have s2: "matchAll_from i (mid @ fence @ t) = matchAll_from (i + length mid) (fence @ t)" for i t
    using assms(2) by (rule matchAll_from_skip) (rule disjI2, rule f)
  have s1: "matchAll_from i (pre @ fence @ t) = matchAll_from (i + length pre) (fence @ t)" for i t
    using assms(1) by (rule matchAll_from_skip) (rule disjI2, rule f)
  show ?thesis
    unfolding matchAll_def block_js block_py
    by (simp add: s1 s2 s3 matchAll_from_block [OF w1 c1] matchAll_from_block [OF w2 c2])
qed

lemma handleCopyCode_blocks:
  "review st = JStr s \<Longrightarrow> s \<noteq> [] \<Longrightarrow> codeBlocks s = bs \<Longrightarrow> bs \<noteq> [] \<Longrightarrow>
   handleCopyCode st
     = Inr [ClipboardWrite (JStr (join (js ''\<newline>\<newline>'') bs)), ToastSuccess (JStr msg_code_copied)]"
  by (simp add: handleCopyCode_def)

text \<open>
  C1. When the stored review is any text made of the block \<^verbatim>\<open>```js\nfoo()\n```\<close>, then the
  block \<^verbatim>\<open>```py\nbar()\n```\<close>, with texts before, between and after them in which three
  backticks in a row do not occur, \<open>handleCopyCode\<close> writes \<^verbatim>\<open>foo()\n\nbar()\<close> to the
  clipboard: the two contents trimmed, in the order of the text, with an empty line
  between them.
\<close>

theorem copy_code_two_blocks:
  assumes "\<not> has_fence pre" and "\<not> has_fence mid" and "\<not> has_fence post"
    and "review st = JStr (pre @ js ''```js\<newline>foo()\<newline>```'' @ mid
                             @ js ''```py\<newline>bar()\<newline>```'' @ post)"
  shows "handleCopyCode st
           = Inr [ClipboardWrite (JStr (js ''foo()\<newline>\<newline>bar()'')),
                  ToastSuccess (JStr msg_code_copied)]"
proof -
  let ?s = "pre @ js ''```js\<newline>foo()\<newline>```'' @ mid @ js ''```py\<newline>bar()\<newline>```'' @ post"
  have "codeBlocks ?s = map trim (map group1 (matchAll ?s))"
    by (simp add: codeBlocks_def)
  also have "\<dots> = [trim (js ''foo()\<newline>''), trim (js ''bar()\<newline>'')]"
    by (simp only: two_blocks_matches [OF assms(1-3)] list.map)
  also have "\<dots> = [js ''foo()'', js ''bar()'']"
    by (simp add: trim_def js_def is_space_def)
  finally have cb: "codeBlocks ?s = [js ''foo()'', js ''bar()'']" .
  have j: "join (js ''\<newline>\<newline>'') [js ''foo()'', js ''bar()''] = js ''foo()\<newline>\<newline>bar()''"
    by (simp add: js_def)
  have ne: "?s \<noteq> []" by (simp add: js_def)
  have nb: "[js ''foo()'', js ''bar()''] \<noteq> []" by simp
  from handleCopyCode_blocks [OF assms(4) ne cb nb] show ?thesis
    unfolding j .
qed

theorem copy_code_two_blocks_witness:
  "\<not> has_fence (js ''Fix:\<newline>'') \<and> \<not> has_fence (js ''\<newline>or `x`:\<newline>'') \<and> \<not> has_fence (js ''\<newline>Done.'') \<and>
   handleCopyCode \<lparr>code = [], review = JStr (js ''Fix:\<newline>```js\<newline>foo()\<newline>```\<newline>or `x`:\<newline>```py\<newline>bar()\<newline>```\<newline>Done.''), loading = False\<rparr>
     = Inr [ClipboardWrite (JStr (js ''foo()\<newline>\<newline>bar()'')),
            ToastSuccess (JStr msg_code_copied)]"
proof -
  have a: "\<not> has_fence (js ''Fix:\<newline>'')" and b: "\<not> has_fence (js ''\<newline>or `x`:\<newline>'')"
    and c: "\<not> has_fence (js ''\<newline>Done.'')"
    by (simp_all add: js_def fence_def backtick_def)
  have r: "review \<lparr>code = [], review = JStr (js ''Fix:\<newline>```js\<newline>foo()\<newline>```\<newline>or `x`:\<newline>```py\<newline>bar()\<newline>```\<newline>Done.''), loading = False\<rparr>
          = JStr (js ''Fix:\<newline>'' @ js ''```js\<newline>foo()\<newline>```'' @ js ''\<newline>or `x`:\<newline>''
                   @ js ''```py\<newline>bar()\<newline>```'' @ js ''\<newline>Done.'')"
    by (simp add: js_def)
  from copy_code_two_blocks [OF a b c r] a b c show ?thesis by simp
qed

text \<open>
  C2. For every text and every match of the scan: the text is some prefix, three
  backticks, a tag of word characters, a line feed, the capture, three backticks and
  some suffix, with the prefix as long as the index of the match; three backticks in a
  row begin nowhere in the capture, so the match stops at the first closing
  backticks and does not run across them into a later block; the capture is its
  trimmed form with white space before and after it, and the trimmed form neither
  begins nor ends with white space. The code blocks are the trimmed captures of the
  matches in the order of the scan, and each match ends before the next one begins.
\<close>

theorem extraction_lazy_verbatim_ordered:
  "(\<forall>x \<in> set (matchAll s).
      (\<exists>a tag b. s = a @ fence @ tag @ [newline] @ group1 x @ fence @ b \<and>
         length a = index x \<and> list_all is_word_char tag) \<and>
      \<not> has_fence (group1 x @ [backtick, backtick]) \<and>
      \<not> has_fence (group1 x) \<and>
      (\<exists>l r. group1 x = l @ trim (group1 x) @ r \<and> list_all is_space l \<and> list_all is_space r) \<and>
      (trim (group1 x) \<noteq> [] \<longrightarrow>
         \<not> is_space (hd (trim (group1 x))) \<and> \<not> is_space (last (trim (group1 x))))) \<and>
   codeBlocks s = map (\<lambda>x. trim (group1 x)) (matchAll s) \<and>
   sorted_wrt (\<lambda>x y. index x + length (matched x) \<le> index y) (matchAll s)"
proof -
  have "(\<exists>a tag b. s = a @ fence @ tag @ [newline] @ group1 x @ fence @ b \<and>
           length a = index x \<and> list_all is_word_char tag) \<and>
        \<not> has_fence (group1 x @ [backtick, backtick]) \<and>
        \<not> has_fence (group1 x)"
    if x: "x \<in> set (matchAll s)" for x
  proof -
    from x matchAll_from_sound [of x 0 s] obtain a tag b where
      h: "s = a @ matched x @ b" "index x = length a"
         "matched x = fence @ tag @ [newline] @ group1 x @ fence"
         "list_all is_word_char tag" "\<not> has_fence (group1 x @ [backtick, backtick])"
      by (auto simp: matchAll_def)
    from h(1,3) have "s = a @ fence @ tag @ [newline] @ group1 x @ fence @ b" by simp
    moreover from h(5) have "\<not> has_fence (group1 x)"
      using has_fence_appendI1 by blast
    ultimately show ?thesis using h(2,4,5) by auto
  qed
  moreover have "sorted_wrt (\<lambda>x y. index x + length (matched x) \<le> index y) (matchAll s)"
    unfolding matchAll_def by (rule matchAll_from_ordered)
  ultimately show ?thesis
    using trim_decomp trim_ends by (simp add: codeBlocks_def)
qed

theorem extraction_lazy_verbatim_ordered_witness:
  "\<lparr>index = 1, matched = js ''```js\<newline> foo()\<newline>```'', group1 = js '' foo()\<newline>''\<rparr>
     \<in> set (matchAll (js ''x```js\<newline> foo()\<newline>``` and ```py\<newline>bar()\<newline>```'')) \<and>
   \<not> has_fence (js '' foo()\<newline>'') \<and>
   codeBlocks (js ''x```js\<newline> foo()\<newline>``` and ```py\<newline>bar()\<newline>```'')
     = [js ''foo()'', js ''bar()'']"
proof -
  let ?s = "js ''x```js\<newline> foo()\<newline>``` and ```py\<newline>bar()\<newline>```''"
  let ?x = "\<lparr>index = 1, matched = js ''```js\<newline> foo()\<newline>```'', group1 = js '' foo()\<newline>''\<rparr>"
  have mem: "?x \<in> set (matchAll ?s)"
    by code_simp
  have tr: "map (\<lambda>x. trim (group1 x)) (matchAll ?s) = [js ''foo()'', js ''bar()'']"
    by code_simp
  from extraction_lazy_verbatim_ordered [of ?s]
  have all: "\<forall>x \<in> set (matchAll ?s). \<not> has_fence (group1 x)"
    and cb: "codeBlocks ?s = map (\<lambda>x. trim (group1 x)) (matchAll ?s)"
    by blast+
  from bspec [OF all mem] have "\<not> has_fence (js '' foo()\<newline>'')" by simp
  with mem cb tr show ?thesis by simp
qed

text \<open>
  C10. Every code block that is extracted from a text is the trimmed content of a
  segment of that text made of three backticks, a tag of word characters, a line
  feed, the content and three backticks. When a text ends with an opening fence (three
  backticks, a tag of word characters, a line feed) and a body in which three
  backticks in a row do not occur, every match of the scan ends no later than the
  three backticks of that opening fence, so nothing of the body is extracted; and when
  three backticks do not occur before that opening fence either, there is no code
  block at all and \<open>handleCopyCode\<close> shows "No code found in review!".
\<close>

theorem unterminated_fence_not_extracted:
  "(\<forall>c \<in> set (codeBlocks s).
      \<exists>a tag body b. s = a @ fence @ tag @ [newline] @ body @ fence @ b \<and>
        list_all is_word_char tag \<and> c = trim body) \<and>
   (list_all is_word_char tg \<and> \<not> has_fence body' \<longrightarrow>
      (\<forall>x \<in> set (matchAll (pre @ fence @ tg @ [newline] @ body')).
         index x + length (matched x) \<le> length pre + 3) \<and>
      (\<not> has_fence pre \<longrightarrow>
         codeBlocks (pre @ fence @ tg @ [newline] @ body') = [] \<and>
         (review st = JStr (pre @ fence @ tg @ [newline] @ body') \<longrightarrow>
            handleCopyCode st = Inr [ToastError msg_no_code])))"
proof -
  have 1: "\<exists>a tag body b. s = a @ fence @ tag @ [newline] @ body @ fence @ b \<and>
        list_all is_word_char tag \<and> c = trim body"
    if "c \<in> set (codeBlocks s)" for c
  proof -
    from that obtain x where x: "x \<in> set (matchAll s)" and c: "c = trim (group1 x)"
      by (auto simp: codeBlocks_def)
    from x matchAll_from_sound [of x 0 s] obtain a tag b where
      h: "s = a @ matched x @ b" "matched x = fence @ tag @ [newline] @ group1 x @ fence"
         "list_all is_word_char tag"
      by (auto simp: matchAll_def)
    from h(1,2) have "s = a @ fence @ tag @ [newline] @ group1 x @ fence @ b" by simp
    with h(3) c show ?thesis by blast
  qed
  have 2: "codeBlocks (pre @ fence @ tg @ [newline] @ body') = [] \<and>
         (review st = JStr (pre @ fence @ tg @ [newline] @ body') \<longrightarrow>
            handleCopyCode st = Inr [ToastError msg_no_code])"
    if "list_all is_word_char tg" "\<not> has_fence body'" "\<not> has_fence pre"
  proof -
    from unterminated_none [OF that] have "codeBlocks (pre @ fence @ tg @ [newline] @ body') = []"
      by (simp add: codeBlocks_def)
    moreover have "pre @ fence @ tg @ [newline] @ body' \<noteq> []" by (simp add: fence_def)
    ultimately show ?thesis by (simp add: handleCopyCode_def)
  qed
  from 1 2 unterminated_bound [of tg body' _ pre] show ?thesis
    by simp
qed

theorem unterminated_fence_not_extracted_witness:
  "js ''ok()'' \<in> set (codeBlocks (js ''```js\<newline>ok()\<newline>```\<newline>```py\<newline>bar()'')) \<and>
   list_all is_word_char (js ''py'') \<and> \<not> has_fence (js ''bar()'') \<and>
   \<lparr>index = 0, matched = js ''```js\<newline>ok()\<newline>```'', group1 = js ''ok()\<newline>''\<rparr>
     \<in> set (matchAll (js ''```js\<newline>ok()\<newline>```\<newline>'' @ fence @ js ''py'' @ [newline] @ js ''bar()'')) \<and>
   (0::nat) + length (js ''```js\<newline>ok()\<newline>```'') \<le> length (js ''```js\<newline>ok()\<newline>```\<newline>'') + 3 \<and>
   \<not> has_fence (js ''Try '') \<and>
   handleCopyCode \<lparr>code = [], review = JStr (js ''Try ```py\<newline>bar()''), loading = False\<rparr>
     = Inr [ToastError msg_no_code]"
proof -
  let ?s = "js ''```js\<newline>ok()\<newline>```\<newline>```py\<newline>bar()''"
  let ?pre = "js ''```js\<newline>ok()\<newline>```\<newline>''"
  let ?x = "\<lparr>index = 0, matched = js ''```js\<newline>ok()\<newline>```'', group1 = js ''ok()\<newline>''\<rparr>"
  let ?st = "\<lparr>code = [], review = JStr (js ''Try ```py\<newline>bar()''), loading = False\<rparr>"
  have c: "js ''ok()'' \<in> set (codeBlocks ?s)"
    by code_simp
  have w: "list_all is_word_char (js ''py'')" and nb: "\<not> has_fence (js ''bar()'')"
    and np: "\<not> has_fence (js ''Try '')"
    by code_simp+
  have mem: "?x \<in> set (matchAll (?pre @ fence @ js ''py'' @ [newline] @ js ''bar()''))"
    by code_simp
  have r: "review ?st = JStr (js ''Try '' @ fence @ js ''py'' @ [newline] @ js ''bar()'')"
    by (simp add: js_def fence_def backtick_def newline_def)
  from unterminated_fence_not_extracted [of ?s "js ''py''" "js ''bar()''" ?pre]
  have "\<forall>x \<in> set (matchAll (?pre @ fence @ js ''py'' @ [newline] @ js ''bar()'')).
         index x + length (matched x) \<le> length ?pre + 3"
    using w nb by blast
  from bspec [OF this mem]
  have 1: "(0::nat) + length (js ''```js\<newline>ok()\<newline>```'') \<le> length ?pre + 3"
    by simp
  from unterminated_fence_not_extracted [of ?s "js ''py''" "js ''bar()''" "js ''Try ''" ?st]
  have 2: "handleCopyCode ?st = Inr [ToastError msg_no_code]"
    using w nb np r by blast
  from c w nb mem 1 np 2 show ?thesis by blast
qed

section \<open>Properties of the gateway service\<close>

text \<open>
  C8. Whatever the provider's client throws, at whichever of its three calls, \<open>main\<close>
  fails with that same error, writes it to the console once and has sent the prompt
  at most once; \<open>main\<close> is defined for every type of error and handles all of them the
  same way. When the three calls succeed, \<open>main\<close> returns the text of the response
  as it is, writes nothing to the console and has sent the prompt exactly once.
\<close>

theorem main_rethrows_or_returns_text:
  "((getGenerativeModel ai model_name sys = Inl e \<or>
     (\<exists>m. getGenerativeModel ai model_name sys = Inr m \<and>
        (generateContent ai m [prompt] = Inl e \<or>
         (\<exists>r. generateContent ai m [prompt] = Inr r \<and> response_text ai r = Inl e)))) \<longrightarrow>
      fst (main sys ai prompt) = Inl e \<and>
      logged (snd (main sys ai prompt)) = [e] \<and>
      last (snd (main sys ai prompt)) = ConsoleError msg_generating e \<and>
      length (filter is_generate (snd (main sys ai prompt))) \<le> 1) \<and>
   ((\<exists>m r. getGenerativeModel ai model_name sys = Inr m \<and>
       generateContent ai m [prompt] = Inr r \<and> response_text ai r = Inr t) \<longrightarrow>
      fst (main sys ai prompt) = Inr t \<and>
      logged (snd (main sys ai prompt)) = [] \<and>
      length (filter is_generate (snd (main sys ai prompt))) = 1)"
  by (auto simp: main_def main_try_def split: sum.split)

theorem main_rethrows_or_returns_text_witness:
  "fst (main (js ''review this'')
          \<lparr>getGenerativeModel = (\<lambda>n s. Inr (0::nat)),
             generateContent = (\<lambda>m ps. Inl AuthError),
             response_text = (\<lambda>r::nat. Inr [])\<rparr> (js ''x=1'')) = Inl AuthError \<and>
   fst (main (js ''review this'')
          \<lparr>getGenerativeModel = (\<lambda>n s. Inr (0::nat)),
             generateContent = (\<lambda>m ps. Inr (concat ps)),
             response_text = (\<lambda>r. Inr (r @ js '' is fine'')) :: _ \<Rightarrow> provider_error + _\<rparr>
          (js ''x=1'')) = Inr (js ''x=1 is fine'')"
proof -
  have a: "\<exists>m. getGenerativeModel
                 \<lparr>getGenerativeModel = (\<lambda>n s. Inr (0::nat)),
                    generateContent = (\<lambda>m ps. Inl AuthError),
                    response_text = (\<lambda>r::nat. Inr [])\<rparr> model_name (js ''review this'') = Inr m \<and>
               generateContent
                 \<lparr>getGenerativeModel = (\<lambda>n s. Inr (0::nat)),
                    generateContent = (\<lambda>m ps. Inl AuthError),
                    response_text = (\<lambda>r::nat. Inr [])\<rparr> m [js ''x=1''] = Inl AuthError"
    by simp
  have b: "\<exists>m r. getGenerativeModel
                 \<lparr>getGenerativeModel = (\<lambda>n s. Inr (0::nat)),
                    generateContent = (\<lambda>m ps. Inr (concat ps)),
                    response_text = (\<lambda>r. Inr (r @ js '' is fine'')) :: _ \<Rightarrow> provider_error + _\<rparr>
                 model_name (js ''review this'') = Inr m \<and>
               generateContent
                 \<lparr>getGenerativeModel = (\<lambda>n s. Inr (0::nat)),
                    generateContent = (\<lambda>m ps. Inr (concat ps)),
                    response_text = (\<lambda>r. Inr (r @ js '' is fine'')) :: _ \<Rightarrow> provider_error + _\<rparr>
                 m [js ''x=1''] = Inr r \<and>
               response_text
                 \<lparr>getGenerativeModel = (\<lambda>n s. Inr (0::nat)),
                    generateContent = (\<lambda>m ps. Inr (concat ps)),
                    response_text = (\<lambda>r. Inr (r @ js '' is fine'')) :: _ \<Rightarrow> provider_error + _\<rparr>
                 r = Inr (js ''x=1 is fine'')"
    by (simp add: js_def)
  from main_rethrows_or_returns_text
         [of "\<lparr>getGenerativeModel = (\<lambda>n s. Inr (0::nat)),
                generateContent = (\<lambda>m ps. Inl AuthError),
                response_text = (\<lambda>r::nat. Inr [])\<rparr>"
             "js ''review this''" AuthError "js ''x=1''"] a
  have 1: "fst (main (js ''review this'')
          \<lparr>getGenerativeModel = (\<lambda>n s. Inr (0::nat)),
             generateContent = (\<lambda>m ps. Inl AuthError),
             response_text = (\<lambda>r::nat. Inr [])\<rparr> (js ''x=1'')) = Inl AuthError"
    by blast
  from main_rethrows_or_returns_text
         [of "\<lparr>getGenerativeModel = (\<lambda>n s. Inr (0::nat)),
                generateContent = (\<lambda>m ps. Inr (concat ps)),
                response_text = (\<lambda>r. Inr (r @ js '' is fine'')) :: _ \<Rightarrow> provider_error + _\<rparr>"
             "js ''review this''" _ "js ''x=1''" "js ''x=1 is fine''"] b
  have 2: "fst (main (js ''review this'')
          \<lparr>getGenerativeModel = (\<lambda>n s. Inr (0::nat)),
             generateContent = (\<lambda>m ps. Inr (concat ps)),
             response_text = (\<lambda>r. Inr (r @ js '' is fine'')) :: _ \<Rightarrow> provider_error + _\<rparr>
          (js ''x=1'')) = Inr (js ''x=1 is fine'')"
    by blast
  from 1 2 show ?thesis by blast
qed

end
